theory Spec2Isabelle
  imports Main "HOL-Library.Sublist" "HOL-Library.Char_ord" "HOL-Library.AList"
begin

section \<open>Strings\<close>

text \<open>
  Python strings are modelled as \<open>string\<close> (lists of 8-bit characters, a non-ASCII code
  point being its UTF-8 bytes). Every character class of the URL pattern and every constant
  the program compares against is ASCII, so a byte above 127 behaves as a non-ASCII code point
  does in Python: it belongs to no class and equals no character of a constant.

  \<open>sub in s\<close> is \<open>str_contains sub s\<close>, \<open>s.endswith(ext)\<close> is \<open>endswith s ext\<close>.
\<close>

definition str_contains :: "string \<Rightarrow> string \<Rightarrow> bool" where
  "str_contains sub s \<longleftrightarrow> sublist sub s"

definition endswith :: "string \<Rightarrow> string \<Rightarrow> bool" where
  "endswith s ext \<longleftrightarrow> suffix ext s"

section \<open>The URL pattern of \<open>extract_content\<close>\<close>

text \<open>
  The pattern is
  \<^verbatim>\<open>http[s]?://(?:[a-zA-Z]|[0-9]|[$-_@.&+]|[!*\(\),]|(?:%[0-9a-fA-F][0-9a-fA-F]))+\<close>.
  Each alternative of the repeated group is a predicate on the next character(s), tried in
  the order of the pattern. In the third class \<open>$-_\<close> is a range (from \<open>$\<close> to \<open>_\<close>).
\<close>

definition in_range :: "char \<Rightarrow> char \<Rightarrow> char \<Rightarrow> bool" where
  "in_range lo hi c \<longleftrightarrow> lo \<le> c \<and> c \<le> hi"

definition alt_letter :: "char \<Rightarrow> bool" where
  "alt_letter c \<longleftrightarrow> in_range CHR ''a'' CHR ''z'' c \<or> in_range CHR ''A'' CHR ''Z'' c"

definition alt_digit :: "char \<Rightarrow> bool" where
  "alt_digit c \<longleftrightarrow> in_range CHR ''0'' CHR ''9'' c"

definition alt_punct :: "char \<Rightarrow> bool" where
  "alt_punct c \<longleftrightarrow> in_range CHR ''$'' CHR ''_'' c \<or> c \<in> set ''@.&+''"

definition alt_paren :: "char \<Rightarrow> bool" where
  "alt_paren c \<longleftrightarrow> c \<in> set ''!*(),''"

definition hex_digit :: "char \<Rightarrow> bool" where
  "hex_digit c \<longleftrightarrow> in_range CHR ''0'' CHR ''9'' c \<or> in_range CHR ''a'' CHR ''f'' c
     \<or> in_range CHR ''A'' CHR ''F'' c"

text \<open>
  One iteration of the group: the first alternative that matches at the head of the text,
  as the characters it consumes and the rest.
\<close>

fun url_atom :: "string \<Rightarrow> (string \<times> string) option" where
  "url_atom [] = None"
| "url_atom (c # cs) =
     (if alt_letter c then Some ([c], cs)
      else if alt_digit c then Some ([c], cs)
      else if alt_punct c then Some ([c], cs)
      else if alt_paren c then Some ([c], cs)
      else if c = CHR ''%'' then
        (case cs of
           h1 # h2 # r \<Rightarrow> if hex_digit h1 \<and> hex_digit h2 then Some ([c, h1, h2], r) else None
         | _ \<Rightarrow> None)
      else None)"

lemma url_atom_split: "url_atom s = Some (m, r) \<Longrightarrow> s = m @ r \<and> m \<noteq> []"
  by (cases s) (auto split: if_splits list.splits)

text \<open>
  The greedy repetition \<open>(...)+\<close>. It ends the pattern, so the matcher never gives back an
  iteration: the match is the iterations taken until none applies (\<open>[]\<close> when not even one).
\<close>

function (sequential) url_run :: "string \<Rightarrow> string" where
  "url_run [] = []"
| "url_run (c # cs) =
     (case url_atom (c # cs) of None \<Rightarrow> [] | Some (m, r) \<Rightarrow> m @ url_run r)"
  by pat_completeness auto
termination
proof (relation "measure length")
  show "wf (measure length)" by simp
next
  fix c :: char and cs :: string and x2 m r
  assume "url_atom (c # cs) = Some x2" "(m, r) = x2"
  then have "c # cs = m @ r \<and> m \<noteq> []" using url_atom_split by metis
  then have "length r < length (c # cs)"
    by (metis append_eq_conv_conj length_drop diff_less length_greater_0_conv list.simps(3))
  then show "(r, c # cs) \<in> measure length" by simp
qed

text \<open>\<open>://\<close> and at least one iteration of the group.\<close>

definition match_tail :: "string \<Rightarrow> string option" where
  "match_tail s =
     (if prefix ''://'' s then
        (let run = url_run (drop 3 s) in if run = [] then None else Some (''://'' @ run))
      else None)"

text \<open>
  The whole pattern at the head of the text: \<open>http\<close>, then the greedy optional \<open>s\<close>
  (tried first; without it when the rest fails after it), then the tail.
\<close>

definition match_url :: "string \<Rightarrow> string option" where
  "match_url s =
     (if prefix ''http'' s then
        (let r = drop 4 s;
             with_s = (case r of c # r' \<Rightarrow>
                         if c = CHR ''s'' then map_option ((#) c) (match_tail r') else None
                       | [] \<Rightarrow> None)
         in case with_s of
              Some m \<Rightarrow> Some (''http'' @ m)
            | None \<Rightarrow> map_option ((@) ''http'') (match_tail r))
      else None)"

lemma url_run_prefix: "prefix (url_run s) s"
proof (induction s rule: url_run.induct)
  case 1
  show ?case by simp
next
  case (2 c cs)
  show ?case
  proof (cases "url_atom (c # cs)")
    case None
    then show ?thesis by simp
  next
    case (Some p)
    obtain m r where p: "p = (m, r)" by (cases p)
    with Some have split: "c # cs = m @ r" using url_atom_split by blast
    from "2.IH" [OF Some p [symmetric]] have "prefix (url_run r) r" .
    then have "prefix (m @ url_run r) (m @ r)" by simp
    moreover have "url_run (c # cs) = m @ url_run r" using Some p by simp
    ultimately show ?thesis using split by simp
  qed
qed

lemma match_tail_prefix: "match_tail s = Some m \<Longrightarrow> prefix m s \<and> m \<noteq> []"
proof -
  assume a: "match_tail s = Some m"
  then have p: "prefix ''://'' s" by (auto simp: match_tail_def split: if_splits)
  then have s: "s = ''://'' @ drop 3 s" by (auto simp: prefix_def)
  from a p have m: "m = ''://'' @ url_run (drop 3 s)"
    by (auto simp: match_tail_def Let_def split: if_splits)
  have "prefix (''://'' @ url_run (drop 3 s)) (''://'' @ drop 3 s)"
    using url_run_prefix by simp
  with s m show ?thesis by simp
qed

lemma match_url_prefix: "match_url s = Some m \<Longrightarrow> prefix m s \<and> m \<noteq> []"
proof -
  assume a: "match_url s = Some m"
  then have p: "prefix ''http'' s" by (auto simp: match_url_def split: if_splits)
  then have s: "s = ''http'' @ drop 4 s" by (auto simp: prefix_def)
  from a p consider
      (with_s) r' t where "drop 4 s = CHR ''s'' # r'" "match_tail r' = Some t"
        "m = ''http'' @ CHR ''s'' # t"
    | (without) t where "match_tail (drop 4 s) = Some t" "m = ''http'' @ t"
    by (auto simp: match_url_def Let_def split: if_splits list.splits option.splits)
  then show ?thesis
  proof cases
    case with_s
    from match_tail_prefix [OF with_s(2)] have "prefix t r'" by simp
    then have "prefix (''http'' @ CHR ''s'' # t) (''http'' @ CHR ''s'' # r')" by simp
    with s with_s show ?thesis by simp
  next
    case without
    from match_tail_prefix [OF without(1)] have "prefix t (drop 4 s)" by simp
    then have "prefix (''http'' @ t) (''http'' @ drop 4 s)" by simp
    with s without show ?thesis by simp
  qed
qed

text \<open>
  \<open>re.findall\<close> on a string: the matches from left to right, each search starting where the
  previous match ended (a match of this pattern is never empty), one character further where
  the pattern does not match.
\<close>

function (sequential) findall :: "string \<Rightarrow> string list" where
  "findall [] = []"
| "findall (c # cs) =
     (case match_url (c # cs) of
        Some m \<Rightarrow> m # findall (drop (length m) (c # cs))
      | None \<Rightarrow> findall cs)"
  by pat_completeness auto
termination
proof (relation "measure length")
  show "wf (measure length)" by simp
next
  fix c :: char and cs :: string and m
  assume "match_url (c # cs) = Some m"
  then have "m \<noteq> []" using match_url_prefix by blast
  then show "(drop (length m) (c # cs), c # cs) \<in> measure length" by simp
next
  fix c :: char and cs :: string
  show "(cs, c # cs) \<in> measure length" by simp
qed

section \<open>Link filter\<close>

definition DOMAIN :: string where
  "DOMAIN = ''helpedbyanerd.com''"

definition image_extensions :: "string list" where
  "image_extensions = [''.jpg'', ''.jpeg'', ''.png'', ''.gif'', ''.webp'', ''.mp4'']"

definition is_internal_and_not_image :: "string \<Rightarrow> bool" where
  "is_internal_and_not_image url \<longleftrightarrow>
     str_contains DOMAIN url \<and> \<not> list_ex (\<lambda>ext. endswith url ext) image_extensions"

text \<open>The list comprehension of \<open>extract_content\<close> over the matches.\<close>

definition internal_urls :: "string list \<Rightarrow> string list" where
  "internal_urls urls =
     filter (\<lambda>url. is_internal_and_not_image url \<and> \<not> str_contains ''empfiehlt'' url) urls"

section \<open>Python values and errors\<close>

text \<open>
  The value of \<open>Element.text\<close> is a string or \<open>None\<close>, so what \<open>get_text\<close> returns, the
  keys and the values of the dictionaries built from it are values of \<open>pyval\<close>. A raised
  exception is the left injection of a result.
\<close>

datatype pyval = PyNone | PyStr string

datatype py_error = TypeError | AttributeError | KeyError

definition py_bind :: "py_error + 'a \<Rightarrow> ('a \<Rightarrow> py_error + 'b) \<Rightarrow> py_error + 'b" where
  "py_bind r f = (case r of Inl e \<Rightarrow> Inl e | Inr v \<Rightarrow> f v)"

section \<open>The parsed export document\<close>

text \<open>
  An \<open>xml.etree.ElementTree\<close> element, as far as the program reads it: its tag (a namespaced
  tag in the form \<open>{uri}local\<close>), its text (\<open>None\<close> for an element without text) and its
  children in document order. The two kinds of path the program uses are \<open>tag\<close> (the
  children with that tag) and \<open>.//tag\<close> (the descendants with that tag, in document order).
  With the prefix map \<open>NAMESPACE\<close> the path \<open>.//content:encoded\<close> is
  \<open>Descendant CONTENT_ENCODED\<close>.
\<close>

datatype element = Element (el_tag: string) (el_text: pyval) (el_children: "element list")

datatype path = Child string | Descendant string

fun descendants :: "element \<Rightarrow> element list" where
  "descendants (Element t x cs) = concat (map (\<lambda>c. c # descendants c) cs)"

fun et_findall :: "element \<Rightarrow> path \<Rightarrow> element list" where
  "et_findall e (Child t) = filter (\<lambda>c. el_tag c = t) (el_children e)"
| "et_findall e (Descendant t) = filter (\<lambda>c. el_tag c = t) (descendants e)"

definition et_find :: "element \<Rightarrow> path \<Rightarrow> element option" where
  "et_find e p = (case et_findall e p of [] \<Rightarrow> None | x # _ \<Rightarrow> Some x)"

definition CONTENT_ENCODED :: string where
  "CONTENT_ENCODED = ''{http://purl.org/rss/1.0/modules/content/}encoded''"

section \<open>\<open>get_text\<close> and \<open>extract_content\<close>\<close>

text \<open>
  \<open>attr_text\<close> is the attribute access \<open>.text\<close> on what \<open>find\<close> returned: on \<open>None\<close> it
  raises \<open>AttributeError\<close>. \<open>get_text\<close> is the conditional expression of the source, which
  calls \<open>find\<close> in the condition and again in the branch.
\<close>

definition attr_text :: "element option \<Rightarrow> py_error + pyval" where
  "attr_text r = (case r of None \<Rightarrow> Inl AttributeError | Some e \<Rightarrow> Inr (el_text e))"

definition get_text :: "element \<Rightarrow> path \<Rightarrow> pyval \<Rightarrow> py_error + pyval" where
  "get_text element p dflt =
     (if et_find element p \<noteq> None then attr_text (et_find element p) else Inr dflt)"

text \<open>\<open>re.findall(pattern, content)\<close>: a \<open>TypeError\<close> when \<open>content\<close> is \<open>None\<close>.\<close>

fun re_findall :: "pyval \<Rightarrow> py_error + string list" where
  "re_findall PyNone = Inl TypeError"
| "re_findall (PyStr s) = Inr (findall s)"

text \<open>
  A Python dictionary keeps its keys in insertion order, and an assignment to a key it
  already has replaces the value in place: an association list under \<open>AList.update\<close>.
  The state of the loop of \<open>extract_content\<close> is the pair of \<open>articles_internal_links\<close>
  and \<open>articles\<close>; \<open>loop_body\<close> is one iteration, \<open>extract_loop\<close> the loop.
\<close>

type_synonym article_links = "(pyval \<times> string list) list"

type_synonym link_to_title = "(pyval \<times> pyval) list"

definition loop_body ::
  "element \<Rightarrow> article_links \<times> link_to_title \<Rightarrow> py_error + article_links \<times> link_to_title"
  where
  "loop_body item st =
     py_bind (get_text item (Child ''title'') (PyStr ''No Title'')) (\<lambda>title.
     py_bind (get_text item (Descendant CONTENT_ENCODED) (PyStr [])) (\<lambda>content.
     py_bind (get_text item (Child ''link'') (PyStr ''No Link'')) (\<lambda>link.
     py_bind (re_findall content) (\<lambda>urls.
       Inr (AList.update title (internal_urls urls) (fst st),
            AList.update link title (snd st))))))"

fun extract_loop ::
  "element list \<Rightarrow> article_links \<times> link_to_title \<Rightarrow> py_error + article_links \<times> link_to_title"
  where
  "extract_loop [] st = Inr st"
| "extract_loop (item # items) st = py_bind (loop_body item st) (extract_loop items)"

definition extract_content :: "element \<Rightarrow> py_error + article_links \<times> link_to_title" where
  "extract_content root = extract_loop (et_findall root (Descendant ''item'')) ([], [])"

section \<open>\<open>create_network_graph\<close>\<close>

text \<open>
  The functions below take the dictionary the docstrings describe: article titles (strings)
  to lists of links (strings), as the list of its items in key order.

  A \<open>networkx.DiGraph\<close>, as far as the program uses it: the node dictionary (node to attribute
  dictionary) and the edges in the order they were first added. \<open>add_node\<close> creates the node
  with the given attributes or, when the node exists, updates its attribute dictionary with
  them. \<open>add_edge\<close> adds either end point that is no node yet (without attributes) and
  records the edge; the adjacency is a dictionary keyed by the target, so an edge that is
  already there stays a single edge.
\<close>

type_synonym attr_dict = "string \<rightharpoonup> string"

record digraph =
  node_attrs :: "string \<rightharpoonup> attr_dict"
  edge_list :: "(string \<times> string) list"

definition empty_digraph :: digraph where
  "empty_digraph = \<lparr>node_attrs = Map.empty, edge_list = []\<rparr>"

definition has_node :: "digraph \<Rightarrow> string \<Rightarrow> bool" where
  "has_node G n \<longleftrightarrow> node_attrs G n \<noteq> None"

definition node_type :: "digraph \<Rightarrow> string \<Rightarrow> string option" where
  "node_type G n = (case node_attrs G n of None \<Rightarrow> None | Some a \<Rightarrow> a ''type'')"

definition add_node :: "digraph \<Rightarrow> string \<Rightarrow> attr_dict \<Rightarrow> digraph" where
  "add_node G n attr =
     G\<lparr>node_attrs := (node_attrs G)
         (n \<mapsto> (case node_attrs G n of None \<Rightarrow> attr | Some old \<Rightarrow> old ++ attr))\<rparr>"

definition add_edge :: "digraph \<Rightarrow> string \<Rightarrow> string \<Rightarrow> digraph" where
  "add_edge G u v =
     (let G1 = (if has_node G u then G else add_node G u Map.empty);
          G2 = (if has_node G1 v then G1 else add_node G1 v Map.empty)
      in G2\<lparr>edge_list :=
            (if (u, v) \<in> set (edge_list G2) then edge_list G2 else edge_list G2 @ [(u, v)])\<rparr>)"

text \<open>
  The body of the inner loop for one link, the inner loop over the links of one article, and
  the loop over the items.
\<close>

definition add_url :: "digraph \<Rightarrow> string \<Rightarrow> string \<Rightarrow> digraph" where
  "add_url G article url =
     add_edge (if \<not> has_node G url then add_node G url [''type'' \<mapsto> ''url''] else G)
       article url"

fun add_urls :: "string \<Rightarrow> string list \<Rightarrow> digraph \<Rightarrow> digraph" where
  "add_urls article [] G = G"
| "add_urls article (url # urls) G = add_urls article urls (add_url G article url)"

fun build_graph :: "(string \<times> string list) list \<Rightarrow> digraph \<Rightarrow> digraph" where
  "build_graph [] G = G"
| "build_graph ((article, urls) # rest) G =
     build_graph rest (add_urls article urls (add_node G article [''type'' \<mapsto> ''article'']))"

text \<open>
  The graph \<open>create_network_graph\<close> has built when its loops end; the layout and the figure
  it then hands the graph to are not modelled.
\<close>

definition create_network_graph :: "(string \<times> string list) list \<Rightarrow> digraph" where
  "create_network_graph data = build_graph data empty_digraph"

section \<open>\<open>generate_mermaid_diagram\<close>\<close>

text \<open>The decimal numeral of a natural number, as an f-string formats an index.\<close>

definition digit_char :: "nat \<Rightarrow> char" where
  "digit_char d = ''0123456789'' ! d"

fun str_of_nat :: "nat \<Rightarrow> string" where
  "str_of_nat n =
     (if n < 10 then [digit_char n] else str_of_nat (n div 10) @ [digit_char (n mod 10)])"

declare str_of_nat.simps [simp del]

text \<open>
  Dictionary access: \<open>d.get(k, default)\<close>, \<open>k in d\<close>, and \<open>d[k]\<close>, which raises
  \<open>KeyError\<close> for a key the dictionary does not have.
\<close>

definition dict_get :: "('k \<times> 'v) list \<Rightarrow> 'k \<Rightarrow> 'v \<Rightarrow> 'v" where
  "dict_get d k dflt = (case map_of d k of None \<Rightarrow> dflt | Some v \<Rightarrow> v)"

definition dict_has :: "('k \<times> 'v) list \<Rightarrow> 'k \<Rightarrow> bool" where
  "dict_has d k \<longleftrightarrow> map_of d k \<noteq> None"

definition dict_index :: "('k \<times> 'v) list \<Rightarrow> 'k \<Rightarrow> py_error + 'v" where
  "dict_index d k = (case map_of d k of None \<Rightarrow> Inl KeyError | Some v \<Rightarrow> Inr v)"

text \<open>
  The dictionary comprehension over \<open>enumerate(internal_links.keys())\<close>: one assignment per
  key, in key order.
\<close>

definition article_ids :: "(string \<times> string list) list \<Rightarrow> (string \<times> string) list" where
  "article_ids internal_links =
     fold (\<lambda>(index, title). AList.update title (''A'' @ str_of_nat index))
       (enumerate 0 (map fst internal_links)) []"

text \<open>The edge statement of the f-string, with its line feed.\<close>

definition edge_statement :: "string \<Rightarrow> string \<Rightarrow> string \<Rightarrow> string \<Rightarrow> string" where
  \<open>edge_statement source_id title target_id link_title =
     ''  '' @ source_id @ ''["'' @ title @ ''"] --> '' @ target_id @ ''["'' @ link_title
       @ ''"];'' @ [CHR 0x0A]\<close>

fun links_loop ::
  "(string \<times> string) list \<Rightarrow> (string \<times> string) list \<Rightarrow> string \<Rightarrow> string \<Rightarrow> string list
    \<Rightarrow> string \<Rightarrow> py_error + string" where
  "links_loop ids mapping source_id title [] mermaid_graph = Inr mermaid_graph"
| "links_loop ids mapping source_id title (link # links) mermaid_graph =
     (let link_title = dict_get mapping link ''Unknown Article'' in
      if dict_has ids link_title then
        py_bind (dict_index ids link_title) (\<lambda>target_id.
          links_loop ids mapping source_id title links
            (mermaid_graph @ edge_statement source_id title target_id link_title))
      else links_loop ids mapping source_id title links mermaid_graph)"

fun items_loop ::
  "(string \<times> string) list \<Rightarrow> (string \<times> string) list \<Rightarrow> (string \<times> string list) list
    \<Rightarrow> string \<Rightarrow> py_error + string" where
  "items_loop ids mapping [] mermaid_graph = Inr mermaid_graph"
| "items_loop ids mapping ((title, links) # rest) mermaid_graph =
     py_bind (dict_index ids title) (\<lambda>source_id.
     py_bind (links_loop ids mapping source_id title links mermaid_graph)
       (items_loop ids mapping rest))"

definition generate_mermaid_diagram ::
  "(string \<times> string list) list \<Rightarrow> (string \<times> string) list \<Rightarrow> py_error + string" where
  "generate_mermaid_diagram internal_links mapping =
     items_loop (article_ids internal_links) mapping internal_links (''graph TD;'' @ [CHR 0x0A])"

section \<open>Properties of link extraction\<close>

lemma findall_sublist: "m \<in> set (findall s) \<Longrightarrow> sublist m s"
proof (induction s rule: findall.induct)
  case 1
  then show ?case by simp
next
  case (2 c cs)
  show ?case
  proof (cases "match_url (c # cs)")
    case None
    with "2.prems" have "m \<in> set (findall cs)" by simp
    with "2.IH"(1) [OF None] have "sublist m cs" .
    then show ?thesis by (simp add: sublist_Cons_right)
  next
    case (Some u)
    then have pre: "prefix u (c # cs)" using match_url_prefix by blast
    from "2.prems" Some consider "m = u" | "m \<in> set (findall (drop (length u) (c # cs)))"
      by auto
    then show ?thesis
    proof cases
      case 1
      with pre show ?thesis by (auto simp: prefix_def)
    next
      case 2
      with "2.IH"(2) [OF Some] have "sublist m (drop (length u) (c # cs))" .
      then obtain ps ss where "drop (length u) (c # cs) = ps @ m @ ss"
        by (auto simp: sublist_def)
      then have "c # cs = (take (length u) (c # cs) @ ps) @ m @ ss"
        by (metis append_take_drop_id append_assoc)
      then show ?thesis unfolding sublist_def by blast
    qed
  qed
qed

lemma scenario_findall:
  "findall ''See https://helpedbyanerd.com/post-a and https://helpedbyanerd.com/cat.jpg''
     = [''https://helpedbyanerd.com/post-a'', ''https://helpedbyanerd.com/cat.jpg'']"
  by code_simp

lemma scenario_internal_urls:
  "internal_urls [''https://helpedbyanerd.com/post-a'', ''https://helpedbyanerd.com/cat.jpg'']
     = [''https://helpedbyanerd.com/post-a'']"
  by code_simp

text \<open>
  C1. For every body text, every link the extraction step returns (the filter over the
  matches of the pattern) contains the domain \<open>helpedbyanerd.com\<close>, ends with none of
  \<open>.jpg\<close>, \<open>.jpeg\<close>, \<open>.png\<close>, \<open>.gif\<close>, \<open>.webp\<close>, \<open>.mp4\<close>, does not contain
  \<open>empfiehlt\<close>, and is a contiguous substring of the body text.
\<close>

theorem extracted_links_filtered:
  assumes "url \<in> set (internal_urls (findall body))"
  shows "str_contains DOMAIN url
    \<and> \<not> endswith url ''.jpg'' \<and> \<not> endswith url ''.jpeg'' \<and> \<not> endswith url ''.png''
    \<and> \<not> endswith url ''.gif'' \<and> \<not> endswith url ''.webp'' \<and> \<not> endswith url ''.mp4''
    \<and> \<not> str_contains ''empfiehlt'' url
    \<and> str_contains url body"
proof -
  from assms have f: "url \<in> set (findall body)"
    and i: "is_internal_and_not_image url" and e: "\<not> str_contains ''empfiehlt'' url"
    by (auto simp: internal_urls_def)
  from f have "str_contains url body" by (simp add: str_contains_def findall_sublist)
  moreover from i have "str_contains DOMAIN url" by (simp add: is_internal_and_not_image_def)
  moreover from i have "\<not> endswith url ''.jpg''" "\<not> endswith url ''.jpeg''"
    "\<not> endswith url ''.png''" "\<not> endswith url ''.gif''" "\<not> endswith url ''.webp''"
    "\<not> endswith url ''.mp4''"
    by (simp_all add: is_internal_and_not_image_def image_extensions_def)
  ultimately show ?thesis using e by simp
qed

theorem extracted_links_filtered_witness:
  "''https://helpedbyanerd.com/post-a''
      \<in> set (internal_urls (findall
          ''See https://helpedbyanerd.com/post-a and https://helpedbyanerd.com/cat.jpg''))
    \<and> str_contains DOMAIN ''https://helpedbyanerd.com/post-a''
    \<and> \<not> endswith ''https://helpedbyanerd.com/post-a'' ''.jpg''
    \<and> \<not> str_contains ''empfiehlt'' ''https://helpedbyanerd.com/post-a''
    \<and> str_contains ''https://helpedbyanerd.com/post-a''
          ''See https://helpedbyanerd.com/post-a and https://helpedbyanerd.com/cat.jpg''"
proof -
  have mem: "''https://helpedbyanerd.com/post-a''
      \<in> set (internal_urls (findall
          ''See https://helpedbyanerd.com/post-a and https://helpedbyanerd.com/cat.jpg''))"
    unfolding scenario_findall scenario_internal_urls by simp
  from extracted_links_filtered [OF mem] mem show ?thesis by blast
qed

text \<open>
  C6. For the body \<open>See https://helpedbyanerd.com/post-a and https://helpedbyanerd.com/cat.jpg\<close>
  and the configured domain \<open>helpedbyanerd.com\<close>, link extraction yields exactly the
  one-element list of \<open>https://helpedbyanerd.com/post-a\<close>: the pattern finds both URLs and
  the filter drops the image URL.
\<close>

theorem scenario_image_excluded:
  "DOMAIN = ''helpedbyanerd.com''
   \<and> findall ''See https://helpedbyanerd.com/post-a and https://helpedbyanerd.com/cat.jpg''
       = [''https://helpedbyanerd.com/post-a'', ''https://helpedbyanerd.com/cat.jpg'']
   \<and> internal_urls (findall
         ''See https://helpedbyanerd.com/post-a and https://helpedbyanerd.com/cat.jpg'')
       = [''https://helpedbyanerd.com/post-a'']"
  unfolding scenario_findall scenario_internal_urls DOMAIN_def by simp

section \<open>Properties of \<open>get_text\<close> and \<open>extract_content\<close>\<close>

lemma et_find_None: "et_find e p = None \<longleftrightarrow> et_findall e p = []"
  by (simp add: et_find_def split: list.splits)

lemma et_find_Child_None:
  "et_find e (Child t) = None \<longleftrightarrow> t \<notin> el_tag ` set (el_children e)"
  by (auto simp: et_find_None filter_empty_conv)

lemma et_find_Descendant_None:
  "et_find e (Descendant t) = None \<longleftrightarrow> t \<notin> el_tag ` set (descendants e)"
  by (auto simp: et_find_None filter_empty_conv)

lemma get_text_absent: "et_find e p = None \<Longrightarrow> get_text e p d = Inr d"
  by (simp add: get_text_def)

lemma get_text_present: "et_find e p = Some x \<Longrightarrow> get_text e p d = Inr (el_text x)"
  by (simp add: get_text_def attr_text_def)

lemma get_text_total: "\<exists>v. get_text e p d = Inr v"
  by (cases "et_find e p") (simp_all add: get_text_absent get_text_present)

lemma loop_body_cases:
  obtains (raises) "get_text item (Descendant CONTENT_ENCODED) (PyStr []) = Inr PyNone"
      and "\<And>st. loop_body item st = Inl TypeError"
  | (returns) title body link where
      "get_text item (Child ''title'') (PyStr ''No Title'') = Inr title"
      "get_text item (Descendant CONTENT_ENCODED) (PyStr []) = Inr (PyStr body)"
      "get_text item (Child ''link'') (PyStr ''No Link'') = Inr link"
      "\<And>st. loop_body item st =
          Inr (AList.update title (internal_urls (findall body)) (fst st),
               AList.update link title (snd st))"
proof -
  obtain title where t: "get_text item (Child ''title'') (PyStr ''No Title'') = Inr title"
    using get_text_total by blast
  obtain content where
    c: "get_text item (Descendant CONTENT_ENCODED) (PyStr []) = Inr content"
    using get_text_total by blast
  obtain link where l: "get_text item (Child ''link'') (PyStr ''No Link'') = Inr link"
    using get_text_total by blast
  show thesis
  proof (cases content)
    case PyNone
    with t c l have "\<And>st. loop_body item st = Inl TypeError"
      by (simp add: loop_body_def py_bind_def)
    with c PyNone show thesis using raises by simp
  next
    case (PyStr body)
    with t c l have "\<And>st. loop_body item st =
          Inr (AList.update title (internal_urls (findall body)) (fst st),
               AList.update link title (snd st))"
      by (simp add: loop_body_def py_bind_def)
    with t c l PyStr show thesis using returns by simp
  qed
qed


lemma extract_loop_raises:
  assumes "item \<in> set items" and "\<And>st. loop_body item st = Inl TypeError"
  shows "extract_loop items st = Inl TypeError"
  using assms(1)
proof (induction items arbitrary: st)
  case Nil
  then show ?case by simp
next
  case (Cons x xs)
  show ?case
  proof (cases x rule: loop_body_cases)
    case raises
    then show ?thesis by (simp add: py_bind_def)
  next
    case (returns title body link)
    have "x \<noteq> item" using returns(4) [of st] assms(2) [of st] by auto
    with Cons.prems have "item \<in> set xs" by auto
    from Cons.IH [OF this] returns(4) show ?thesis by (simp add: py_bind_def)
  qed
qed


text \<open>
  C3. When an item has no \<open>title\<close> child the extracted title is \<open>No Title\<close>; when it has
  no \<open>link\<close> child the extracted link is \<open>No Link\<close>; when it has no namespaced content
  element below it the extracted body is the empty string, on which the pattern scan returns
  the empty list. In each case \<open>get_text\<close> returns (it raises for no element, path and
  default), and an item that lacks all three is processed without an error, recording
  \<open>No Title\<close> with no links and \<open>No Link\<close> for \<open>No Title\<close>.
\<close>

theorem missing_elements_default:
  "(''title'' \<notin> el_tag ` set (el_children item) \<longrightarrow>
      get_text item (Child ''title'') (PyStr ''No Title'') = Inr (PyStr ''No Title''))
   \<and> (''link'' \<notin> el_tag ` set (el_children item) \<longrightarrow>
      get_text item (Child ''link'') (PyStr ''No Link'') = Inr (PyStr ''No Link''))
   \<and> (CONTENT_ENCODED \<notin> el_tag ` set (descendants item) \<longrightarrow>
      get_text item (Descendant CONTENT_ENCODED) (PyStr []) = Inr (PyStr [])
      \<and> re_findall (PyStr []) = Inr [])
   \<and> (\<exists>v. get_text item p d = Inr v)
   \<and> (''title'' \<notin> el_tag ` set (el_children item)
      \<and> ''link'' \<notin> el_tag ` set (el_children item)
      \<and> CONTENT_ENCODED \<notin> el_tag ` set (descendants item) \<longrightarrow>
      loop_body item st =
        Inr (AList.update (PyStr ''No Title'') [] (fst st),
             AList.update (PyStr ''No Link'') (PyStr ''No Title'') (snd st)))"
proof -
  have t: "get_text item (Child ''title'') (PyStr ''No Title'') = Inr (PyStr ''No Title'')"
    if "''title'' \<notin> el_tag ` set (el_children item)"
    using that by (simp add: get_text_absent et_find_Child_None)
  have l: "get_text item (Child ''link'') (PyStr ''No Link'') = Inr (PyStr ''No Link'')"
    if "''link'' \<notin> el_tag ` set (el_children item)"
    using that by (simp add: get_text_absent et_find_Child_None)
  have c: "get_text item (Descendant CONTENT_ENCODED) (PyStr []) = Inr (PyStr [])"
    if "CONTENT_ENCODED \<notin> el_tag ` set (descendants item)"
    using that by (simp add: get_text_absent et_find_Descendant_None)
  have f: "re_findall (PyStr []) = Inr []" by simp
  have b: "loop_body item st =
        Inr (AList.update (PyStr ''No Title'') [] (fst st),
             AList.update (PyStr ''No Link'') (PyStr ''No Title'') (snd st))"
    if "''title'' \<notin> el_tag ` set (el_children item)"
      "''link'' \<notin> el_tag ` set (el_children item)"
      "CONTENT_ENCODED \<notin> el_tag ` set (descendants item)"
    using t [OF that(1)] l [OF that(2)] c [OF that(3)]
    by (simp add: loop_body_def py_bind_def internal_urls_def)
  from t l c f b get_text_total [of item p d] show ?thesis by blast
qed

theorem missing_elements_default_witness:
  "''title'' \<notin> el_tag ` set (el_children (Element ''item'' PyNone []))
   \<and> get_text (Element ''item'' PyNone []) (Child ''title'') (PyStr ''No Title'')
       = Inr (PyStr ''No Title'')
   \<and> get_text (Element ''item'' PyNone []) (Child ''link'') (PyStr ''No Link'')
       = Inr (PyStr ''No Link'')
   \<and> get_text (Element ''item'' PyNone []) (Descendant CONTENT_ENCODED) (PyStr [])
       = Inr (PyStr [])
   \<and> loop_body (Element ''item'' PyNone []) ([], [])
       = Inr ([(PyStr ''No Title'', [])], [(PyStr ''No Link'', PyStr ''No Title'')])"
  using missing_elements_default [of "Element ''item'' PyNone []" "Child ''title''" PyNone
      "([], [])"]
  by simp

text \<open>
  C8. When the first namespaced content element below an item has no text (its text is
  \<open>None\<close>), \<open>get_text\<close> returns \<open>None\<close>, not the empty-string default; the pattern scan of
  \<open>None\<close> raises \<open>TypeError\<close>; so the iteration for that item raises, and so does
  \<open>extract_content\<close> on every document in which the item occurs.
\<close>

theorem empty_content_raises:
  assumes "et_find item (Descendant CONTENT_ENCODED) = Some e" and "el_text e = PyNone"
  shows "get_text item (Descendant CONTENT_ENCODED) (PyStr []) = Inr PyNone
    \<and> re_findall PyNone = Inl TypeError
    \<and> loop_body item st = Inl TypeError
    \<and> (item \<in> set (et_findall root (Descendant ''item'')) \<longrightarrow>
         extract_content root = Inl TypeError)"
proof -
  from assms have g: "get_text item (Descendant CONTENT_ENCODED) (PyStr []) = Inr PyNone"
    by (simp add: get_text_present)
  have r: "loop_body item s = Inl TypeError" for s
  proof (cases item rule: loop_body_cases)
    case raises
    then show ?thesis by simp
  next
    case (returns title body link)
    with g show ?thesis by simp
  qed
  have "extract_content root = Inl TypeError"
    if "item \<in> set (et_findall root (Descendant ''item''))"
    unfolding extract_content_def using that r by (rule extract_loop_raises)
  with g r show ?thesis by simp
qed

theorem empty_content_raises_witness:
  "et_find (Element ''item'' PyNone [Element CONTENT_ENCODED PyNone []])
       (Descendant CONTENT_ENCODED) = Some (Element CONTENT_ENCODED PyNone [])
   \<and> el_text (Element CONTENT_ENCODED PyNone []) = PyNone
   \<and> Element ''item'' PyNone [Element CONTENT_ENCODED PyNone []]
       \<in> set (et_findall
           (Element ''channel'' PyNone [Element ''item'' PyNone [Element CONTENT_ENCODED PyNone []]])
           (Descendant ''item''))
   \<and> get_text (Element ''item'' PyNone [Element CONTENT_ENCODED PyNone []])
       (Descendant CONTENT_ENCODED) (PyStr []) = Inr PyNone
   \<and> loop_body (Element ''item'' PyNone [Element CONTENT_ENCODED PyNone []]) ([], [])
       = Inl TypeError
   \<and> extract_content
       (Element ''channel'' PyNone [Element ''item'' PyNone [Element CONTENT_ENCODED PyNone []]])
       = Inl TypeError"
proof -
  have f: "et_find (Element ''item'' PyNone [Element CONTENT_ENCODED PyNone []])
       (Descendant CONTENT_ENCODED) = Some (Element CONTENT_ENCODED PyNone [])"
    by (simp add: et_find_def)
  have t: "el_text (Element CONTENT_ENCODED PyNone []) = PyNone" by simp
  have m: "Element ''item'' PyNone [Element CONTENT_ENCODED PyNone []]
       \<in> set (et_findall
           (Element ''channel'' PyNone [Element ''item'' PyNone [Element CONTENT_ENCODED PyNone []]])
           (Descendant ''item''))"
    by simp
  from empty_content_raises [OF f t, of "([], [])"
      "Element ''channel'' PyNone [Element ''item'' PyNone [Element CONTENT_ENCODED PyNone []]]"]
    f t m
  show ?thesis by blast
qed




section \<open>Properties of the graph builder\<close>

lemma has_node_add_node: "has_node (add_node G n a) m \<longleftrightarrow> m = n \<or> has_node G m"
  by (simp add: has_node_def add_node_def)

lemma node_type_add_node:
  "node_type (add_node G n [''type'' \<mapsto> t]) m = (if m = n then Some t else node_type G m)"
  by (simp add: node_type_def add_node_def split: option.splits)

lemma edge_list_add_node: "edge_list (add_node G n a) = edge_list G"
  by (simp add: add_node_def)

lemma node_type_absent: "\<not> has_node G n \<Longrightarrow> node_type G n = None"
  by (simp add: has_node_def node_type_def)

lemma add_edge_present:
  assumes "has_node G u" and "has_node G v"
  shows "node_attrs (add_edge G u v) = node_attrs G"
    and "set (edge_list (add_edge G u v)) = insert (u, v) (set (edge_list G))"
    and "distinct (edge_list G) \<Longrightarrow> distinct (edge_list (add_edge G u v))"
  using assms by (auto simp: add_edge_def Let_def)

lemma add_edge_present_nodes:
  assumes "has_node G u" and "has_node G v"
  shows "has_node (add_edge G u v) n = has_node G n"
    and "node_type (add_edge G u v) n = node_type G n"
  using add_edge_present(1) [OF assms] by (simp_all add: has_node_def node_type_def)

text \<open>One link of an article that is a node already.\<close>

lemma add_url_step:
  assumes "has_node G a"
  shows "has_node (add_url G a u) n \<longleftrightarrow> has_node G n \<or> n = u"
    and "node_type (add_url G a u) n = (if has_node G n then node_type G n
           else if n = u then Some ''url'' else None)"
    and "set (edge_list (add_url G a u)) = insert (a, u) (set (edge_list G))"
    and "distinct (edge_list G) \<Longrightarrow> distinct (edge_list (add_url G a u))"
proof -
  let ?H = "if \<not> has_node G u then add_node G u [''type'' \<mapsto> ''url''] else G"
  have G': "add_url G a u = add_edge ?H a u" by (simp add: add_url_def)
  have a: "has_node ?H a" using assms(1) by (simp add: has_node_add_node)
  have u: "has_node ?H u" by (simp add: has_node_add_node)
  have e: "edge_list ?H = edge_list G" by (simp add: edge_list_add_node)
  have "has_node (add_url G a u) n \<longleftrightarrow> has_node ?H n"
    unfolding G' by (rule add_edge_present_nodes(1) [OF a u])
  then show "has_node (add_url G a u) n \<longleftrightarrow> has_node G n \<or> n = u"
    by (auto simp: has_node_add_node)
  have "node_type (add_url G a u) n = node_type ?H n"
    unfolding G' by (rule add_edge_present_nodes(2) [OF a u])
  then show "node_type (add_url G a u) n = (if has_node G n then node_type G n
           else if n = u then Some ''url'' else None)"
    by (auto simp: node_type_add_node node_type_absent)
  have "set (edge_list (add_url G a u)) = insert (a, u) (set (edge_list ?H))"
    unfolding G' by (rule add_edge_present(2) [OF a u])
  then show "set (edge_list (add_url G a u)) = insert (a, u) (set (edge_list G))"
    using e by simp
  show "distinct (edge_list (add_url G a u))" if "distinct (edge_list G)"
    unfolding G' using add_edge_present(3) [OF a u] that e by simp
qed

lemma add_urls_nodes:
  assumes "has_node G a"
  shows "(has_node (add_urls a urls G) n \<longleftrightarrow> has_node G n \<or> n \<in> set urls)
    \<and> node_type (add_urls a urls G) n = (if has_node G n then node_type G n
           else if n \<in> set urls then Some ''url'' else None)"
  using assms
proof (induction urls arbitrary: G)
  case Nil
  show ?case by (simp add: node_type_absent)
next
  case (Cons u urls)
  from Cons.prems have "has_node (add_url G a u) a" by (simp add: add_url_step(1))
  from Cons.IH [OF this] Cons.prems show ?case
    by (auto simp: add_url_step(1,2))
qed

lemma add_urls_edges:
  assumes "has_node G a"
  shows "set (edge_list (add_urls a urls G)) = set (edge_list G) \<union> Pair a ` set urls
    \<and> (distinct (edge_list G) \<longrightarrow> distinct (edge_list (add_urls a urls G)))"
  using assms
proof (induction urls arbitrary: G)
  case Nil
  show ?case by simp
next
  case (Cons u urls)
  from Cons.prems have "has_node (add_url G a u) a" by (simp add: add_url_step(1))
  from Cons.IH [OF this] Cons.prems show ?case
    by (auto simp: add_url_step(3,4))
qed

text \<open>The loop over the items, from any graph.\<close>

lemma build_graph_nodes:
  "(has_node (build_graph data G) n \<longleftrightarrow>
     has_node G n \<or> n \<in> fst ` set data \<or> n \<in> \<Union> (set ` snd ` set data))
   \<and> node_type (build_graph data G) n =
     (if n \<in> fst ` set data then Some ''article''
      else if has_node G n then node_type G n
      else if n \<in> \<Union> (set ` snd ` set data) then Some ''url'' else None)"
proof (induction data arbitrary: G)
  case Nil
  show ?case by (simp add: node_type_absent)
next
  case (Cons p data)
  obtain a urls where p: "p = (a, urls)" by (cases p)
  let ?G1 = "add_node G a [''type'' \<mapsto> ''article'']"
  let ?G2 = "add_urls a urls ?G1"
  have a: "has_node ?G1 a" by (simp add: has_node_add_node)
  have step: "build_graph (p # data) G = build_graph data ?G2" by (simp add: p)
  from add_urls_nodes [OF a, of urls n]
  have h2: "has_node ?G2 n \<longleftrightarrow> n = a \<or> has_node G n \<or> n \<in> set urls"
    and t2: "node_type ?G2 n = (if n = a then Some ''article''
        else if has_node G n then node_type G n
        else if n \<in> set urls then Some ''url'' else None)"
    by (auto simp: has_node_add_node node_type_add_node)
  from Cons.IH [of ?G2] show ?case
    unfolding step h2 t2 by (auto simp: p)
qed

lemma build_graph_edges:
  "set (edge_list (build_graph data G)) =
     set (edge_list G) \<union> {(a, u). \<exists>urls. (a, urls) \<in> set data \<and> u \<in> set urls}
   \<and> (distinct (edge_list G) \<longrightarrow> distinct (edge_list (build_graph data G)))"
proof (induction data arbitrary: G)
  case Nil
  show ?case by simp
next
  case (Cons p data)
  obtain a urls where p: "p = (a, urls)" by (cases p)
  let ?G1 = "add_node G a [''type'' \<mapsto> ''article'']"
  let ?G2 = "add_urls a urls ?G1"
  have a: "has_node ?G1 a" by (simp add: has_node_add_node)
  have step: "build_graph (p # data) G = build_graph data ?G2" by (simp add: p)
  from add_urls_edges [OF a, of urls]
  have e2: "set (edge_list ?G2) = set (edge_list G) \<union> Pair a ` set urls"
    and d2: "distinct (edge_list G) \<longrightarrow> distinct (edge_list ?G2)"
    by (simp_all add: edge_list_add_node)
  from Cons.IH [of ?G2] d2 show ?case
    unfolding step e2 by (auto simp: p)
qed

lemma distinct_count_list: "distinct xs \<Longrightarrow> x \<in> set xs \<Longrightarrow> count_list xs x = 1"
  by (induction xs) (auto simp: count_list_0_iff)

lemma add_url_attrs:
  assumes "has_node H a"
  shows "has_node H u \<Longrightarrow> node_attrs (add_url H a u) = node_attrs H"
    and "\<not> has_node H u \<Longrightarrow> node_attrs (add_url H a u) u = Some [''type'' \<mapsto> ''url'']"
proof -
  show "node_attrs (add_url H a u) = node_attrs H" if "has_node H u"
    using that assms by (simp add: add_url_def add_edge_present(1))
next
  assume u: "\<not> has_node H u"
  let ?H = "add_node H u [''type'' \<mapsto> ''url'']"
  have "has_node ?H a" "has_node ?H u" using assms by (simp_all add: has_node_add_node)
  then have "node_attrs (add_edge ?H a u) = node_attrs ?H" by (rule add_edge_present(1))
  moreover have "node_attrs ?H u = Some [''type'' \<mapsto> ''url'']"
    using u by (simp add: add_node_def has_node_def)
  ultimately show "node_attrs (add_url H a u) u = Some [''type'' \<mapsto> ''url'']"
    using u by (simp add: add_url_def)
qed

text \<open>
  C5. After \<open>create_network_graph\<close> has built the graph for a mapping: every article key is a
  node of type \<open>article\<close>; every target of an article is a node, and the body of the inner
  loop adds it with type \<open>url\<close> only when it was no node before, leaving the attributes of
  every node as they were when it was one (so a target that is also an article key ends with
  type \<open>article\<close>, any other with type \<open>url\<close>); and the edge from the article to each of
  its targets is in the graph exactly once, however often the target occurs in the list.
\<close>

theorem graph_nodes_and_edges:
  "((article, urls) \<in> set data \<longrightarrow>
      has_node (create_network_graph data) article
      \<and> node_type (create_network_graph data) article = Some ''article''
      \<and> (\<forall>url \<in> set urls.
           has_node (create_network_graph data) url
           \<and> node_type (create_network_graph data) url
               = Some (if url \<in> fst ` set data then ''article'' else ''url'')
           \<and> count_list (edge_list (create_network_graph data)) (article, url) = 1))
   \<and> (has_node H a \<and> has_node H u \<longrightarrow> node_attrs (add_url H a u) = node_attrs H)
   \<and> (has_node H a \<and> \<not> has_node H u \<longrightarrow>
        node_attrs (add_url H a u) u = Some [''type'' \<mapsto> ''url''])"
proof -
  let ?G = "create_network_graph data"
  have empty: "\<not> has_node empty_digraph n" "edge_list empty_digraph = []" for n
    by (simp_all add: empty_digraph_def has_node_def)
  have nodes: "has_node ?G n \<longleftrightarrow> n \<in> fst ` set data \<or> n \<in> \<Union> (set ` snd ` set data)"
    and types: "node_type ?G n =
      (if n \<in> fst ` set data then Some ''article''
       else if n \<in> \<Union> (set ` snd ` set data) then Some ''url'' else None)" for n
    using build_graph_nodes [of data empty_digraph n]
    by (simp_all add: create_network_graph_def empty)
  have edges: "set (edge_list ?G) = {(a, u). \<exists>urls. (a, urls) \<in> set data \<and> u \<in> set urls}"
    and dist: "distinct (edge_list ?G)"
    using build_graph_edges [of data empty_digraph]
    by (simp_all add: create_network_graph_def empty)
  have main: "has_node ?G article \<and> node_type ?G article = Some ''article''
      \<and> (\<forall>url \<in> set urls. has_node ?G url
           \<and> node_type ?G url = Some (if url \<in> fst ` set data then ''article'' else ''url'')
           \<and> count_list (edge_list ?G) (article, url) = 1)"
    if mem: "(article, urls) \<in> set data"
  proof -
    from mem have key: "article \<in> fst ` set data" by force
    have "has_node ?G url
        \<and> node_type ?G url = Some (if url \<in> fst ` set data then ''article'' else ''url'')
        \<and> count_list (edge_list ?G) (article, url) = 1" if u: "url \<in> set urls" for url
    proof -
      from mem u have t: "url \<in> \<Union> (set ` snd ` set data)" by force
      from mem u have "(article, url) \<in> set (edge_list ?G)" unfolding edges by blast
      with dist have "count_list (edge_list ?G) (article, url) = 1"
        by (rule distinct_count_list)
      with t show ?thesis by (simp add: nodes types)
    qed
    with key show ?thesis by (simp add: nodes types)
  qed
  from main add_url_attrs [of H a u] show ?thesis by blast
qed

theorem graph_nodes_and_edges_witness:
  "(''A'', [''B'', ''u'', ''B'']) \<in> set [(''A'', [''B'', ''u'', ''B'']), (''B'', [''u''])]
   \<and> node_type (create_network_graph [(''A'', [''B'', ''u'', ''B'']), (''B'', [''u''])]) ''A''
       = Some ''article''
   \<and> node_type (create_network_graph [(''A'', [''B'', ''u'', ''B'']), (''B'', [''u''])]) ''B''
       = Some ''article''
   \<and> node_type (create_network_graph [(''A'', [''B'', ''u'', ''B'']), (''B'', [''u''])]) ''u''
       = Some ''url''
   \<and> count_list (edge_list (create_network_graph [(''A'', [''B'', ''u'', ''B'']), (''B'', [''u''])]))
       (''A'', ''B'') = 1
   \<and> has_node (add_node empty_digraph ''A'' [''type'' \<mapsto> ''article'']) ''A''
   \<and> node_attrs (add_url (add_node empty_digraph ''A'' [''type'' \<mapsto> ''article'']) ''A'' ''A'')
       = node_attrs (add_node empty_digraph ''A'' [''type'' \<mapsto> ''article''])
   \<and> node_attrs (add_url (add_node empty_digraph ''A'' [''type'' \<mapsto> ''article'']) ''A'' ''u'')
       ''u'' = Some [''type'' \<mapsto> ''url'']"
proof -
  have n: "has_node (add_node empty_digraph ''A'' [''type'' \<mapsto> ''article'']) ''A''"
    "\<not> has_node (add_node empty_digraph ''A'' [''type'' \<mapsto> ''article'']) ''u''"
    by (simp_all add: has_node_def add_node_def empty_digraph_def)
  from graph_nodes_and_edges [of "''A''" "[''B'', ''u'', ''B'']"
      "[(''A'', [''B'', ''u'', ''B'']), (''B'', [''u''])]"
      "add_node empty_digraph ''A'' [''type'' \<mapsto> ''article'']" "''A''" "''A''"]
    graph_nodes_and_edges [of "''A''" "[''B'', ''u'', ''B'']"
      "[(''A'', [''B'', ''u'', ''B'']), (''B'', [''u''])]"
      "add_node empty_digraph ''A'' [''type'' \<mapsto> ''article'']" "''A''" "''u''"]
    n
  show ?thesis by simp
qed

text \<open>
  C10. When the graph is built, its nodes are the keys of the mapping and the targets in its
  lists; a node has type \<open>article\<close> exactly when it is a key, and every other node has type
  \<open>url\<close>. The article step sets the type whatever the node was before, and the step for a
  link leaves the type of a node that already exists, so a string that is a target of an
  earlier article and a later key ends as \<open>article\<close>.
\<close>

theorem node_type_article_iff_key:
  "(has_node (create_network_graph data) n \<longleftrightarrow>
      n \<in> fst ` set data \<or> n \<in> \<Union> (set ` snd ` set data))
   \<and> (has_node (create_network_graph data) n \<longrightarrow>
        (node_type (create_network_graph data) n = Some ''article'' \<longleftrightarrow> n \<in> fst ` set data)
        \<and> (n \<notin> fst ` set data \<longrightarrow> node_type (create_network_graph data) n = Some ''url''))
   \<and> node_type (add_node H n [''type'' \<mapsto> ''article'']) n = Some ''article''
   \<and> (has_node H a \<and> has_node H n \<longrightarrow> node_type (add_url H a n) n = node_type H n)"
proof -
  let ?G = "create_network_graph data"
  have empty: "\<not> has_node empty_digraph n" for n
    by (simp add: empty_digraph_def has_node_def)
  have nodes: "has_node ?G n \<longleftrightarrow> n \<in> fst ` set data \<or> n \<in> \<Union> (set ` snd ` set data)"
    and types: "node_type ?G n =
      (if n \<in> fst ` set data then Some ''article''
       else if n \<in> \<Union> (set ` snd ` set data) then Some ''url'' else None)"
    using build_graph_nodes [of data empty_digraph n]
    by (simp_all add: create_network_graph_def empty)
  have guard: "node_type (add_url H a n) n = node_type H n" if "has_node H a" "has_node H n"
    using add_url_step(2) [OF that(1), of n n] that(2) by simp
  from nodes types guard show ?thesis
    by (auto simp: node_type_add_node)
qed

theorem node_type_article_iff_key_witness:
  "has_node (create_network_graph [(''A'', [''B'', ''u'']), (''B'', [])]) ''B''
   \<and> ''B'' \<in> \<Union> (set ` snd ` set [(''A'', [''B'', ''u'']), (''B'', [])])
   \<and> ''B'' \<in> fst ` set [(''A'', [''B'', ''u'']), (''B'', [])]
   \<and> node_type (create_network_graph [(''A'', [''B'', ''u'']), (''B'', [])]) ''B''
       = Some ''article''
   \<and> has_node (create_network_graph [(''A'', [''B'', ''u'']), (''B'', [])]) ''u''
   \<and> ''u'' \<notin> fst ` set [(''A'', [''B'', ''u'']), (''B'', [])]
   \<and> node_type (create_network_graph [(''A'', [''B'', ''u'']), (''B'', [])]) ''u''
       = Some ''url''"
  using node_type_article_iff_key [of "[(''A'', [''B'', ''u'']), (''B'', [])]" "''B''"
      empty_digraph "''A''"]
    node_type_article_iff_key [of "[(''A'', [''B'', ''u'']), (''B'', [])]" "''u''"
      empty_digraph "''A''"]
  by simp

section \<open>Properties of the diagram generator\<close>

subsection \<open>Decimal numerals\<close>

lemma digit_char_inject:
  assumes "a < 10" and "b < 10" and "digit_char a = digit_char b"
  shows "a = b"
proof -
  have "distinct ''0123456789''" by simp
  moreover have "a < length ''0123456789''" "b < length ''0123456789''"
    using assms(1,2) by simp_all
  ultimately show ?thesis
    using assms(3) unfolding digit_char_def by (simp only: nth_eq_iff_index_eq)
qed

lemma str_of_nat_length: "length (str_of_nat n) = 1 \<longleftrightarrow> n < 10"
proof (cases "n < 10")
  case True
  then show ?thesis by (simp add: str_of_nat.simps)
next
  case False
  have "str_of_nat (n div 10) \<noteq> []"
    by (subst str_of_nat.simps) simp
  with False show ?thesis
    by (subst str_of_nat.simps) (simp add: Suc_le_eq)
qed

lemma str_of_nat_inject: "str_of_nat m = str_of_nat n \<Longrightarrow> m = n"
proof (induction n arbitrary: m rule: str_of_nat.induct)
  case (1 n)
  show ?case
  proof (cases "n < 10")
    case True
    with "1.prems" have "m < 10" using str_of_nat_length by metis
    with True "1.prems" show ?thesis
      by (simp add: str_of_nat.simps [of m] str_of_nat.simps [of n] digit_char_inject)
  next
    case False
    with "1.prems" have m: "\<not> m < 10" using str_of_nat_length by metis
    from "1.prems" False m
    have "str_of_nat (m div 10) @ [digit_char (m mod 10)]
        = str_of_nat (n div 10) @ [digit_char (n mod 10)]"
      by (simp add: str_of_nat.simps [of m] str_of_nat.simps [of n])
    then have d: "str_of_nat (m div 10) = str_of_nat (n div 10)"
      and r: "digit_char (m mod 10) = digit_char (n mod 10)"
      by simp_all
    from "1.IH" [OF False d] have "m div 10 = n div 10" .
    moreover from r have "m mod 10 = n mod 10" by (simp add: digit_char_inject)
    ultimately show ?thesis by (metis div_mult_mod_eq)
  qed
qed

subsection \<open>The identifiers\<close>

lemma update_new_key: "k \<notin> fst ` set al \<Longrightarrow> AList.update k v al = al @ [(k, v)]"
  by (induction al) auto

lemma fold_update_enumerate:
  assumes "distinct ks" and "set ks \<inter> fst ` set acc = {}"
  shows "fold (\<lambda>(index, title). AList.update title (f index)) (enumerate n ks) acc
    = acc @ zip ks (map f [n..<n + length ks])"
  using assms
proof (induction ks arbitrary: n acc)
  case Nil
  show ?case by simp
next
  case (Cons k ks)
  from Cons.prems have new: "k \<notin> fst ` set acc" by auto
  let ?acc = "acc @ [(k, f n)]"
  from Cons.prems have "distinct ks" "set ks \<inter> fst ` set ?acc = {}" by auto
  from Cons.IH [OF this, of "Suc n"]
  have "fold (\<lambda>(index, title). AList.update title (f index)) (enumerate (Suc n) ks) ?acc
    = ?acc @ zip ks (map f [Suc n..<Suc n + length ks])" .
  moreover have "[n..<n + length (k # ks)] = n # [Suc n..<Suc n + length ks]"
    by (subst upt_rec) simp
  ultimately show ?case by (simp add: update_new_key [OF new])
qed

lemma article_ids_zip:
  assumes "distinct (map fst internal_links)"
  shows "article_ids internal_links
    = zip (map fst internal_links)
        (map (\<lambda>index. ''A'' @ str_of_nat index) [0..<length internal_links])"
  using fold_update_enumerate [OF assms, of "[]" "\<lambda>index. ''A'' @ str_of_nat index" 0]
  by (simp add: article_ids_def)

lemma fold_update_keys:
  "fst ` set (fold (\<lambda>(index, title). AList.update title (f index)) ps acc)
    = fst ` set acc \<union> snd ` set ps"
proof (induction ps arbitrary: acc)
  case Nil
  show ?case by simp
next
  case (Cons p ps)
  obtain index title where p: "p = (index, title)" by (cases p)
  have "fst ` set (AList.update title (f index) acc) = {title} \<union> fst ` set acc"
    by (rule dom_update)
  then show ?case by (auto simp: p Cons.IH)
qed

lemma article_ids_keys: "fst ` set (article_ids internal_links) = fst ` set internal_links"
proof -
  have "snd ` set (enumerate 0 (map fst internal_links))
      = set (map snd (enumerate 0 (map fst internal_links)))"
    by (simp only: set_map)
  also have "\<dots> = fst ` set internal_links" by simp
  finally show ?thesis by (simp add: article_ids_def fold_update_keys)
qed

lemma map_of_article_ids:
  "t \<in> fst ` set internal_links \<longleftrightarrow> map_of (article_ids internal_links) t \<noteq> None"
  using article_ids_keys [of internal_links] by (simp add: map_of_eq_None_iff)

subsection \<open>The loops\<close>

lemma links_loop_eq:
  "links_loop ids mapping source_id title links g =
     Inr (g @ concat (map (\<lambda>link.
        case map_of ids (dict_get mapping link ''Unknown Article'') of
          None \<Rightarrow> []
        | Some target_id \<Rightarrow>
            edge_statement source_id title target_id
              (dict_get mapping link ''Unknown Article'')) links))"
  by (induction links arbitrary: g)
    (auto simp: dict_has_def dict_index_def py_bind_def Let_def)

lemma items_loop_eq:
  assumes "fst ` set items \<subseteq> fst ` set ids"
  shows "items_loop ids mapping items g =
     Inr (g @ concat (map (\<lambda>(title, links).
        case map_of ids title of
          None \<Rightarrow> []
        | Some source_id \<Rightarrow>
            concat (map (\<lambda>link.
              case map_of ids (dict_get mapping link ''Unknown Article'') of
                None \<Rightarrow> []
              | Some target_id \<Rightarrow>
                  edge_statement source_id title target_id
                    (dict_get mapping link ''Unknown Article'')) links)) items))"
  using assms
proof (induction items arbitrary: g)
  case Nil
  show ?case by simp
next
  case (Cons p items)
  obtain title links where p: "p = (title, links)" by (cases p)
  with Cons.prems have "title \<in> fst ` set ids" by simp
  then obtain source_id where s: "map_of ids title = Some source_id"
    by (metis map_of_eq_None_iff not_None_eq)
  from Cons.prems have "fst ` set items \<subseteq> fst ` set ids" by simp
  from Cons.IH [OF this] s show ?case
    by (simp add: p dict_index_def py_bind_def links_loop_eq)
qed

lemma sublist_concat_map: "x \<in> set xs \<Longrightarrow> sublist (f x) (concat (map f xs))"
proof (induction xs)
  case Nil
  then show ?case by simp
next
  case (Cons y ys)
  show ?case
  proof (cases "x = y")
    case True
    then show ?thesis by simp
  next
    case False
    with Cons have "sublist (f x) (concat (map f ys))" by simp
    then show ?thesis by (simp add: sublist_append)
  qed
qed

lemma link_statements_trace:
  "\<exists>es. concat (map (\<lambda>link.
            case map_of ids (dict_get mapping link ''Unknown Article'') of
              None \<Rightarrow> []
            | Some target_id \<Rightarrow>
                edge_statement source_id title target_id
                  (dict_get mapping link ''Unknown Article'')) links)
        = concat (map (\<lambda>(t, link, s, target_id).
            edge_statement s t target_id (dict_get mapping link ''Unknown Article'')) es)
      \<and> (\<forall>(t, link, s, target_id) \<in> set es.
            t = title \<and> s = source_id \<and> link \<in> set links
            \<and> map_of ids (dict_get mapping link ''Unknown Article'') = Some target_id)"
proof (induction links)
  case Nil
  show ?case by (rule exI [of _ "[]"]) simp
next
  case (Cons l ls)
  then obtain es where es:
    "concat (map (\<lambda>link.
            case map_of ids (dict_get mapping link ''Unknown Article'') of
              None \<Rightarrow> []
            | Some target_id \<Rightarrow>
                edge_statement source_id title target_id
                  (dict_get mapping link ''Unknown Article'')) ls)
        = concat (map (\<lambda>(t, link, s, target_id).
            edge_statement s t target_id (dict_get mapping link ''Unknown Article'')) es)"
    "\<forall>(t, link, s, target_id) \<in> set es.
            t = title \<and> s = source_id \<and> link \<in> set ls
            \<and> map_of ids (dict_get mapping link ''Unknown Article'') = Some target_id"
    by blast
  show ?case
  proof (cases "map_of ids (dict_get mapping l ''Unknown Article'')")
    case None
    with es show ?thesis by (intro exI [of _ es]) auto
  next
    case (Some target_id)
    with es show ?thesis by (intro exI [of _ "(title, l, source_id, target_id) # es"]) auto
  qed
qed

lemma item_statements_trace:
  "\<exists>es. concat (map (\<lambda>(title, links).
            case map_of ids title of
              None \<Rightarrow> []
            | Some source_id \<Rightarrow>
                concat (map (\<lambda>link.
                  case map_of ids (dict_get mapping link ''Unknown Article'') of
                    None \<Rightarrow> []
                  | Some target_id \<Rightarrow>
                      edge_statement source_id title target_id
                        (dict_get mapping link ''Unknown Article'')) links)) items)
        = concat (map (\<lambda>(t, link, s, target_id).
            edge_statement s t target_id (dict_get mapping link ''Unknown Article'')) es)
      \<and> (\<forall>(t, link, s, target_id) \<in> set es.
            (\<exists>links. (t, links) \<in> set items \<and> link \<in> set links)
            \<and> map_of ids t = Some s
            \<and> map_of ids (dict_get mapping link ''Unknown Article'') = Some target_id)"
proof (induction items)
  case Nil
  show ?case by (rule exI [of _ "[]"]) simp
next
  case (Cons p items)
  obtain title links where p: "p = (title, links)" by (cases p)
  from Cons obtain es where es:
    "concat (map (\<lambda>(title, links).
            case map_of ids title of
              None \<Rightarrow> []
            | Some source_id \<Rightarrow>
                concat (map (\<lambda>link.
                  case map_of ids (dict_get mapping link ''Unknown Article'') of
                    None \<Rightarrow> []
                  | Some target_id \<Rightarrow>
                      edge_statement source_id title target_id
                        (dict_get mapping link ''Unknown Article'')) links)) items)
        = concat (map (\<lambda>(t, link, s, target_id).
            edge_statement s t target_id (dict_get mapping link ''Unknown Article'')) es)"
    "\<forall>(t, link, s, target_id) \<in> set es.
            (\<exists>links. (t, links) \<in> set items \<and> link \<in> set links)
            \<and> map_of ids t = Some s
            \<and> map_of ids (dict_get mapping link ''Unknown Article'') = Some target_id"
    by blast
  show ?case
  proof (cases "map_of ids title")
    case None
    with es p show ?thesis by (intro exI [of _ es]) auto
  next
    case (Some source_id)
    from link_statements_trace [where ids = ids and mapping = mapping
        and source_id = source_id and title = title and links = links]
    obtain fs where fs:
      "concat (map (\<lambda>link.
            case map_of ids (dict_get mapping link ''Unknown Article'') of
              None \<Rightarrow> []
            | Some target_id \<Rightarrow>
                edge_statement source_id title target_id
                  (dict_get mapping link ''Unknown Article'')) links)
        = concat (map (\<lambda>(t, link, s, target_id).
            edge_statement s t target_id (dict_get mapping link ''Unknown Article'')) fs)"
      "\<forall>(t, link, s, target_id) \<in> set fs.
            t = title \<and> s = source_id \<and> link \<in> set links
            \<and> map_of ids (dict_get mapping link ''Unknown Article'') = Some target_id"
      by blast
    from es(1) fs(1) Some p have "concat (map (\<lambda>(title, links).
            case map_of ids title of
              None \<Rightarrow> []
            | Some source_id \<Rightarrow>
                concat (map (\<lambda>link.
                  case map_of ids (dict_get mapping link ''Unknown Article'') of
                    None \<Rightarrow> []
                  | Some target_id \<Rightarrow>
                      edge_statement source_id title target_id
                        (dict_get mapping link ''Unknown Article'')) links)) (p # items))
        = concat (map (\<lambda>(t, link, s, target_id).
            edge_statement s t target_id (dict_get mapping link ''Unknown Article''))
              (fs @ es))"
      by simp
    moreover from es(2) fs(2) Some p have "\<forall>(t, link, s, target_id) \<in> set (fs @ es).
            (\<exists>links. (t, links) \<in> set (p # items) \<and> link \<in> set links)
            \<and> map_of ids t = Some s
            \<and> map_of ids (dict_get mapping link ''Unknown Article'') = Some target_id"
      by fastforce
    ultimately show ?thesis by blast
  qed
qed

lemma generate_mermaid_diagram_eq:
  "generate_mermaid_diagram internal_links mapping =
     Inr ((''graph TD;'' @ [CHR 0x0A]) @ concat (map (\<lambda>(title, links).
        case map_of (article_ids internal_links) title of
          None \<Rightarrow> []
        | Some source_id \<Rightarrow>
            concat (map (\<lambda>link.
              case map_of (article_ids internal_links)
                  (dict_get mapping link ''Unknown Article'') of
                None \<Rightarrow> []
              | Some target_id \<Rightarrow>
                  edge_statement source_id title target_id
                    (dict_get mapping link ''Unknown Article'')) links)) internal_links))"
  unfolding generate_mermaid_diagram_def
  by (rule items_loop_eq) (simp add: article_ids_keys)

text \<open>
  C4. For a mapping with distinct keys, the identifier dictionary has the keys of the
  mapping, each once and in the same order; the key at position \<open>i\<close> has the identifier
  \<open>A\<close> followed by the decimal numeral of \<open>i\<close> (the numeral of 0 is \<open>0\<close>, so the first key
  has \<open>A0\<close>); the identifiers are pairwise distinct; and the identifiers depend on the
  key order alone: a mapping with the same keys in the same order gets the same
  identifier dictionary.
\<close>

theorem article_ids_enumerated:
  assumes "distinct (map fst internal_links)"
  shows "map fst (article_ids internal_links) = map fst internal_links
    \<and> (\<forall>i<length internal_links.
         map_of (article_ids internal_links) (fst (internal_links ! i))
           = Some (''A'' @ str_of_nat i))
    \<and> str_of_nat 0 = ''0''
    \<and> distinct (map snd (article_ids internal_links))
    \<and> (map fst other = map fst internal_links \<longrightarrow>
         article_ids other = article_ids internal_links)"
proof -
  let ?n = "length internal_links"
  let ?f = "\<lambda>index. ''A'' @ str_of_nat index"
  have z: "article_ids internal_links = zip (map fst internal_links) (map ?f [0..<?n])"
    using assms by (rule article_ids_zip)
  have keys: "map fst (article_ids internal_links) = map fst internal_links"
    unfolding z by simp
  have at: "map_of (article_ids internal_links) (fst (internal_links ! i)) = Some (?f i)"
    if "i < ?n" for i
  proof -
    have "map_of (zip (map fst internal_links) (map ?f [0..<?n])) (map fst internal_links ! i)
        = Some (map ?f [0..<?n] ! i)"
      using assms that by (intro map_of_zip_nth) simp_all
    with that show ?thesis unfolding z by simp
  qed
  have "inj_on ?f (set [0..<?n])"
    by (rule inj_onI) (simp add: str_of_nat_inject)
  then have ids: "distinct (map snd (article_ids internal_links))"
    unfolding z by (simp add: distinct_map)
  have same: "article_ids other = article_ids internal_links"
    if "map fst other = map fst internal_links"
  proof -
    from that assms have "distinct (map fst other)" by simp
    then have "article_ids other = zip (map fst other) (map ?f [0..<length other])"
      by (rule article_ids_zip)
    moreover from that have "length other = ?n" by (metis length_map)
    ultimately show ?thesis using that z by simp
  qed
  have "str_of_nat 0 = ''0''" by (simp add: str_of_nat.simps digit_char_def)
  with keys at ids same show ?thesis by blast
qed

theorem article_ids_enumerated_witness:
  "distinct (map fst [(''x'', [''l'']), (''y'', [])])
   \<and> map fst (article_ids [(''x'', [''l'']), (''y'', [])]) = [''x'', ''y'']
   \<and> map_of (article_ids [(''x'', [''l'']), (''y'', [])]) ''x'' = Some ''A0''
   \<and> map_of (article_ids [(''x'', [''l'']), (''y'', [])]) ''y'' = Some ''A1''
   \<and> distinct (map snd (article_ids [(''x'', [''l'']), (''y'', [])]))
   \<and> article_ids [(''x'', []), (''y'', [''m''])] = article_ids [(''x'', [''l'']), (''y'', [])]"
proof -
  have d: "distinct (map fst [(''x'', [''l'']), (''y'', [])])" by simp
  have one: "str_of_nat 1 = ''1''" by (simp add: str_of_nat.simps digit_char_def)
  from article_ids_enumerated [OF d, of "[(''x'', []), (''y'', [''m''])]"]
  have "map fst (article_ids [(''x'', [''l'']), (''y'', [])]) = [''x'', ''y'']"
    and all: "\<forall>i<2. map_of (article_ids [(''x'', [''l'']), (''y'', [])])
        (fst ([(''x'', [''l'']), (''y'', [])] ! i)) = Some (''A'' @ str_of_nat i)"
    and "str_of_nat 0 = ''0''"
    and "distinct (map snd (article_ids [(''x'', [''l'']), (''y'', [])]))"
    and "article_ids [(''x'', []), (''y'', [''m''])] = article_ids [(''x'', [''l'']), (''y'', [])]"
    by simp_all
  moreover have "map_of (article_ids [(''x'', [''l'']), (''y'', [])])
        (fst ([(''x'', [''l'']), (''y'', [])] ! 0)) = Some (''A'' @ str_of_nat 0)"
    using all [rule_format, of 0] by simp
  moreover have "map_of (article_ids [(''x'', [''l'']), (''y'', [])])
        (fst ([(''x'', [''l'']), (''y'', [])] ! 1)) = Some (''A'' @ str_of_nat 1)"
    using all [rule_format, of 1] by simp
  ultimately show ?thesis using d one by simp
qed

text \<open>
  C2, as stated, fails: a link that is no key of the link-to-title mapping resolves to the
  placeholder \<open>Unknown Article\<close>, and when an article has that title the edge is emitted. Below
  the mapping is empty and the diagram has an edge.
\<close>

theorem diagram_edge_for_unmapped_link:
  \<open>generate_mermaid_diagram [(''Unknown Article'', []), (''B'', [''https://x''])] []
     = Inr (''graph TD;'' @ [CHR 0x0A]
         @ ''  A1["B"] --> A0["Unknown Article"];'' @ [CHR 0x0A])
   \<and> map_of ([] :: (string \<times> string) list) ''https://x'' = None\<close>
  by (simp add: generate_mermaid_diagram_def article_ids_def py_bind_def dict_get_def
      dict_has_def dict_index_def edge_statement_def digit_char_def str_of_nat.simps)

text \<open>
  C2, amended. For a mapping with distinct keys, generation raises no error and the diagram
  is the header line followed by edge statements, each of which comes from a title and a
  link in the list the mapping has for that title, such that the title the link resolves to
  (the value the link-to-title mapping has for it, or \<open>Unknown Article\<close> when the link is
  no key of that mapping) is a key of the mapping; the two identifiers in the statement are
  those of the title and of the resolved title.
\<close>

theorem diagram_edges_resolve_to_keys:
  assumes "distinct (map fst internal_links)"
  shows "\<exists>es.
    generate_mermaid_diagram internal_links mapping
      = Inr ((''graph TD;'' @ [CHR 0x0A]) @ concat (map (\<lambda>(title, link, source_id, target_id).
          edge_statement source_id title target_id
            (dict_get mapping link ''Unknown Article'')) es))
    \<and> (\<forall>(title, link, source_id, target_id) \<in> set es.
         (\<exists>links. map_of internal_links title = Some links \<and> link \<in> set links)
         \<and> dict_get mapping link ''Unknown Article'' \<in> fst ` set internal_links
         \<and> map_of (article_ids internal_links) title = Some source_id
         \<and> map_of (article_ids internal_links) (dict_get mapping link ''Unknown Article'')
             = Some target_id)"
proof -
  let ?ids = "article_ids internal_links"
  from item_statements_trace [where ids = ?ids and mapping = mapping
      and items = internal_links]
  obtain es where es:
    "concat (map (\<lambda>(title, links).
            case map_of ?ids title of
              None \<Rightarrow> []
            | Some source_id \<Rightarrow>
                concat (map (\<lambda>link.
                  case map_of ?ids (dict_get mapping link ''Unknown Article'') of
                    None \<Rightarrow> []
                  | Some target_id \<Rightarrow>
                      edge_statement source_id title target_id
                        (dict_get mapping link ''Unknown Article'')) links)) internal_links)
        = concat (map (\<lambda>(t, link, s, target_id).
            edge_statement s t target_id (dict_get mapping link ''Unknown Article'')) es)"
    "\<forall>(t, link, s, target_id) \<in> set es.
            (\<exists>links. (t, links) \<in> set internal_links \<and> link \<in> set links)
            \<and> map_of ?ids t = Some s
            \<and> map_of ?ids (dict_get mapping link ''Unknown Article'') = Some target_id"
    by blast
  have out: "generate_mermaid_diagram internal_links mapping
      = Inr ((''graph TD;'' @ [CHR 0x0A]) @ concat (map (\<lambda>(title, link, source_id, target_id).
          edge_statement source_id title target_id
            (dict_get mapping link ''Unknown Article'')) es))"
    unfolding generate_mermaid_diagram_eq es(1) ..
  have "(\<exists>links. map_of internal_links t = Some links \<and> link \<in> set links)
      \<and> dict_get mapping link ''Unknown Article'' \<in> fst ` set internal_links
      \<and> map_of ?ids t = Some s
      \<and> map_of ?ids (dict_get mapping link ''Unknown Article'') = Some target_id"
    if "(t, link, s, target_id) \<in> set es" for t link s target_id
  proof -
    from es(2) that obtain links where l: "(t, links) \<in> set internal_links" "link \<in> set links"
      and s: "map_of ?ids t = Some s"
      and r: "map_of ?ids (dict_get mapping link ''Unknown Article'') = Some target_id"
      by fastforce
    from l(1) assms have "map_of internal_links t = Some links" by simp
    moreover from r have "dict_get mapping link ''Unknown Article'' \<in> fst ` set internal_links"
      by (simp add: map_of_article_ids)
    ultimately show ?thesis using l(2) s r by blast
  qed
  then have "\<forall>(title, link, source_id, target_id) \<in> set es.
         (\<exists>links. map_of internal_links title = Some links \<and> link \<in> set links)
         \<and> dict_get mapping link ''Unknown Article'' \<in> fst ` set internal_links
         \<and> map_of ?ids title = Some source_id
         \<and> map_of ?ids (dict_get mapping link ''Unknown Article'') = Some target_id"
    by auto
  with out show ?thesis by blast
qed

theorem diagram_edges_resolve_to_keys_witness:
  \<open>distinct (map fst [(''A'', []), (''B'', [''https://h/a'', ''https://h/x''])])
   \<and> generate_mermaid_diagram [(''A'', []), (''B'', [''https://h/a'', ''https://h/x''])]
        [(''https://h/a'', ''A'')]
      = Inr (''graph TD;'' @ [CHR 0x0A] @ ''  A1["B"] --> A0["A"];'' @ [CHR 0x0A])
   \<and> (\<exists>es.
        generate_mermaid_diagram [(''A'', []), (''B'', [''https://h/a'', ''https://h/x''])]
            [(''https://h/a'', ''A'')]
          = Inr ((''graph TD;'' @ [CHR 0x0A])
              @ concat (map (\<lambda>(title, link, source_id, target_id).
                  edge_statement source_id title target_id
                    (dict_get [(''https://h/a'', ''A'')] link ''Unknown Article'')) es))
        \<and> (\<forall>(title, link, source_id, target_id) \<in> set es.
             (\<exists>links. map_of [(''A'', []), (''B'', [''https://h/a'', ''https://h/x''])] title
                  = Some links \<and> link \<in> set links)
             \<and> dict_get [(''https://h/a'', ''A'')] link ''Unknown Article''
                 \<in> fst ` set [(''A'', []), (''B'', [''https://h/a'', ''https://h/x''])]
             \<and> map_of (article_ids [(''A'', []), (''B'', [''https://h/a'', ''https://h/x''])])
                  title = Some source_id
             \<and> map_of (article_ids [(''A'', []), (''B'', [''https://h/a'', ''https://h/x''])])
                  (dict_get [(''https://h/a'', ''A'')] link ''Unknown Article'')
                 = Some target_id))\<close>
proof -
  have d: "distinct (map fst [(''A'', []), (''B'', [''https://h/a'', ''https://h/x''])])"
    by simp
  have out: \<open>generate_mermaid_diagram [(''A'', []), (''B'', [''https://h/a'', ''https://h/x''])]
        [(''https://h/a'', ''A'')]
      = Inr (''graph TD;'' @ [CHR 0x0A] @ ''  A1["B"] --> A0["A"];'' @ [CHR 0x0A])\<close>
    by (simp add: generate_mermaid_diagram_def article_ids_def py_bind_def dict_get_def
        dict_has_def dict_index_def edge_statement_def digit_char_def str_of_nat.simps)
  from diagram_edges_resolve_to_keys [OF d, of "[(''https://h/a'', ''A'')]"] d out
  show ?thesis by blast
qed

text \<open>
  C9. When some article of the mapping has the title \<open>Unknown Article\<close>, then for every
  link in the list of any article that is no key of the link-to-title mapping, generation
  returns a diagram that contains the edge statement from that article (with its
  identifier) to \<open>Unknown Article\<close> with the identifier of the article of that title: the
  link is not dropped.
\<close>

theorem unresolved_links_point_at_unknown_article:
  assumes "''Unknown Article'' \<in> fst ` set internal_links"
    and "(title, links) \<in> set internal_links"
    and "link \<in> set links"
    and "map_of mapping link = None"
  shows "\<exists>diagram source_id target_id.
    generate_mermaid_diagram internal_links mapping = Inr diagram
    \<and> map_of (article_ids internal_links) title = Some source_id
    \<and> map_of (article_ids internal_links) ''Unknown Article'' = Some target_id
    \<and> str_contains (edge_statement source_id title target_id ''Unknown Article'') diagram"
proof -
  let ?ids = "article_ids internal_links"
  let ?G = "\<lambda>source_id title link.
      case map_of ?ids (dict_get mapping link ''Unknown Article'') of
        None \<Rightarrow> []
      | Some target_id \<Rightarrow>
          edge_statement source_id title target_id (dict_get mapping link ''Unknown Article'')"
  let ?F = "\<lambda>(title, links).
      case map_of ?ids title of
        None \<Rightarrow> []
      | Some source_id \<Rightarrow> concat (map (?G source_id title) links)"
  from assms(2) have "title \<in> fst ` set internal_links" by force
  then obtain source_id where s: "map_of ?ids title = Some source_id"
    using map_of_article_ids by blast
  from assms(1) obtain target_id where t: "map_of ?ids ''Unknown Article'' = Some target_id"
    using map_of_article_ids by blast
  from assms(4) have r: "dict_get mapping link ''Unknown Article'' = ''Unknown Article''"
    by (simp add: dict_get_def)
  let ?stmt = "edge_statement source_id title target_id ''Unknown Article''"
  have "?G source_id title link = ?stmt" using r t by simp
  moreover have "sublist (?G source_id title link) (concat (map (?G source_id title) links))"
    using assms(3) by (rule sublist_concat_map)
  ultimately have "sublist ?stmt (?F (title, links))" using s by simp
  moreover have "sublist (?F (title, links)) (concat (map ?F internal_links))"
    using assms(2) by (rule sublist_concat_map)
  ultimately have "sublist ?stmt (concat (map ?F internal_links))"
    by (rule sublist_order.order.trans)
  then have "sublist ?stmt ((''graph TD;'' @ [CHR 0x0A]) @ concat (map ?F internal_links))"
    by (simp only: sublist_append) simp
  moreover have "generate_mermaid_diagram internal_links mapping
      = Inr ((''graph TD;'' @ [CHR 0x0A]) @ concat (map ?F internal_links))"
    by (rule generate_mermaid_diagram_eq)
  ultimately show ?thesis using s t unfolding str_contains_def by blast
qed

theorem unresolved_links_point_at_unknown_article_witness:
  \<open>''Unknown Article'' \<in> fst ` set [(''Unknown Article'', []), (''B'', [''https://x''])]
   \<and> (''B'', [''https://x'']) \<in> set [(''Unknown Article'', []), (''B'', [''https://x''])]
   \<and> map_of ([] :: (string \<times> string) list) ''https://x'' = None
   \<and> generate_mermaid_diagram [(''Unknown Article'', []), (''B'', [''https://x''])] []
      = Inr (''graph TD;'' @ [CHR 0x0A]
          @ ''  A1["B"] --> A0["Unknown Article"];'' @ [CHR 0x0A])
   \<and> str_contains (edge_statement ''A1'' ''B'' ''A0'' ''Unknown Article'')
        (''graph TD;'' @ [CHR 0x0A]
          @ ''  A1["B"] --> A0["Unknown Article"];'' @ [CHR 0x0A])\<close>
proof -
  let ?il = "[(''Unknown Article'', []), (''B'', [''https://x''])]"
  have h1: "''Unknown Article'' \<in> fst ` set ?il" by simp
  have h2: "(''B'', [''https://x'']) \<in> set ?il" by simp
  have h3: "''https://x'' \<in> set [''https://x'']" by simp
  have h4: "map_of ([] :: (string \<times> string) list) ''https://x'' = None" by simp
  have out: \<open>generate_mermaid_diagram ?il []
      = Inr (''graph TD;'' @ [CHR 0x0A]
          @ ''  A1["B"] --> A0["Unknown Article"];'' @ [CHR 0x0A])\<close>
    by (simp add: generate_mermaid_diagram_def article_ids_def py_bind_def dict_get_def
        dict_has_def dict_index_def edge_statement_def digit_char_def str_of_nat.simps)
  have ids: "map_of (article_ids ?il) ''B'' = Some ''A1''"
    "map_of (article_ids ?il) ''Unknown Article'' = Some ''A0''"
    by (simp_all add: article_ids_def digit_char_def str_of_nat.simps)
  from unresolved_links_point_at_unknown_article [OF h1 h2 h3 h4]
  obtain diagram source_id target_id where
    "generate_mermaid_diagram ?il [] = Inr diagram"
    "map_of (article_ids ?il) ''B'' = Some source_id"
    "map_of (article_ids ?il) ''Unknown Article'' = Some target_id"
    "str_contains (edge_statement source_id ''B'' target_id ''Unknown Article'') diagram"
    by blast
  with out ids have \<open>str_contains (edge_statement ''A1'' ''B'' ''A0'' ''Unknown Article'')
        (''graph TD;'' @ [CHR 0x0A]
          @ ''  A1["B"] --> A0["Unknown Article"];'' @ [CHR 0x0A])\<close>
    by simp
  with h1 h2 h4 out show ?thesis by simp
qed

end
